theory Spec2Isabelle
  imports Complex_Main "HOL-Library.Multiset" "HOL-Library.Sublist"
begin

section \<open>JavaScript numbers and the \<open>Number\<close> conversion\<close>

text \<open>
  The cost of a stop is a JavaScript \<open>number\<close>: \<open>NaN\<close>, one of the two infinities, or a
  finite binary64 value, kept here as the rational it denotes. The sign of zero is not
  kept; no statement below depends on it.
\<close>

datatype jsnum = NaN | NegInf | Finite rat | PosInf

text \<open>
  Rounding of a real value to binary64, to the nearest value with ties to the even
  significand: the significand has 53 bits, the least exponent of a normal value is
  \<open>-1022\<close>, smaller values are spaced \<open>2 ^ -1074\<close> apart, and a value that rounds to
  \<open>2 ^ 1024\<close> or more is an infinity.
\<close>

definition half_even :: "rat \<Rightarrow> int" where
  "half_even m =
     (let f = \<lfloor>m\<rfloor>; r = m - of_int f
      in if r < 1 / 2 then f else if 1 / 2 < r then f + 1 else if even f then f else f + 1)"

function halvings :: "rat \<Rightarrow> nat" where
  "halvings a = (if 2 \<le> a then Suc (halvings (a / 2)) else 0)"
  by pat_completeness auto
termination
proof (relation "measure (\<lambda>a. nat \<lfloor>a\<rfloor>)")
  show "wf (measure (\<lambda>a::rat. nat \<lfloor>a\<rfloor>))" by simp
next
  fix a :: rat assume a: "2 \<le> a"
  have "a / 2 \<le> a - 1" using a by simp
  then have "\<lfloor>a / 2\<rfloor> \<le> \<lfloor>a - 1\<rfloor>" by (rule floor_mono)
  moreover have "2 \<le> \<lfloor>a\<rfloor>" using a by (simp add: le_floor_iff)
  ultimately show "(a / 2, a) \<in> measure (\<lambda>a. nat \<lfloor>a\<rfloor>)" by simp
qed

function doublings :: "rat \<Rightarrow> nat" where
  "doublings a = (if 0 < a \<and> a < 1 then Suc (doublings (2 * a)) else 0)"
  by pat_completeness auto
termination
proof (relation "measure (\<lambda>a. nat \<lfloor>1 / a\<rfloor>)")
  show "wf (measure (\<lambda>a::rat. nat \<lfloor>1 / a\<rfloor>))" by simp
next
  fix a :: rat assume a: "0 < a \<and> a < 1"
  define x where "x = 1 / a"
  have x: "1 < x" using a by (simp add: x_def)
  then have fx: "1 \<le> \<lfloor>x\<rfloor>" by (simp add: le_floor_iff)
  have "x < of_int \<lfloor>x\<rfloor> + 1" by linarith
  then have "x / 2 < of_int \<lfloor>x\<rfloor>" using fx by linarith
  then have lt: "\<lfloor>x / 2\<rfloor> < \<lfloor>x\<rfloor>" by (simp add: floor_less_iff)
  have eq: "1 / (2 * a) = x / 2" by (simp add: x_def)
  have "nat \<lfloor>1 / (2 * a)\<rfloor> < nat \<lfloor>1 / a\<rfloor>"
    unfolding eq using lt fx by (simp add: x_def)
  then show "(2 * a, a) \<in> measure (\<lambda>a. nat \<lfloor>1 / a\<rfloor>)" by simp
qed

declare halvings.simps [simp del] doublings.simps [simp del]

text \<open>The exponent \<open>e\<close> of a positive value \<open>a\<close>: \<open>2 ^ e \<le> a < 2 ^ (e + 1)\<close>.\<close>

definition exponent :: "rat \<Rightarrow> int" where
  "exponent a = (if 1 \<le> a then int (halvings a) else - int (doublings a))"

definition scale2 :: "rat \<Rightarrow> int \<Rightarrow> rat" where
  "scale2 x t = (if 0 \<le> t then x * 2 ^ nat t else x / 2 ^ nat (- t))"

definition round64 :: "rat \<Rightarrow> jsnum" where
  "round64 q =
     (if q = 0 then Finite 0
      else let a = \<bar>q\<bar>;
               e = exponent a;
               t = (if e < - 1022 then - 1074 else e - 52);
               v = scale2 (of_int (half_even (scale2 a (- t)))) t
           in if 2 ^ 1024 \<le> v then (if q < 0 then NegInf else PosInf)
              else Finite (if q < 0 then - v else v))"

text \<open>Addition of numbers: the exact sum of two finite values, rounded.\<close>

instantiation jsnum :: "{zero, plus}"
begin

definition zero_jsnum :: jsnum where
  "zero_jsnum = Finite 0"

fun plus_jsnum :: "jsnum \<Rightarrow> jsnum \<Rightarrow> jsnum" where
  "plus_jsnum NaN _ = NaN"
| "plus_jsnum _ NaN = NaN"
| "plus_jsnum PosInf NegInf = NaN"
| "plus_jsnum NegInf PosInf = NaN"
| "plus_jsnum PosInf _ = PosInf"
| "plus_jsnum _ PosInf = PosInf"
| "plus_jsnum NegInf _ = NegInf"
| "plus_jsnum _ NegInf = NegInf"
| "plus_jsnum (Finite a) (Finite b) = round64 (a + b)"

instance ..

end

text \<open>Truthiness of a number, and \<open>x || y\<close> on numbers: \<open>NaN\<close> and zero are falsy.\<close>

definition truthy :: "jsnum \<Rightarrow> bool" where
  "truthy n = (n \<noteq> NaN \<and> n \<noteq> Finite 0)"

definition js_or :: "jsnum \<Rightarrow> jsnum \<Rightarrow> jsnum" where
  "js_or a b = (if truthy a then a else b)"

definition uminus_js :: "jsnum \<Rightarrow> jsnum" where
  "uminus_js n = (case n of NaN \<Rightarrow> NaN | NegInf \<Rightarrow> PosInf | PosInf \<Rightarrow> NegInf
                  | Finite q \<Rightarrow> Finite (- q))"


text \<open>
  \<open>Number(s)\<close> on a string is ECMAScript's StringToNumber: white space is trimmed, the
  empty string is \<open>0\<close>, a signed decimal literal (with optional fraction and exponent, or
  \<open>Infinity\<close>) or an unsigned \<open>0x\<close>/\<open>0o\<close>/\<open>0b\<close> integer literal gives its value, and every
  other string gives \<open>NaN\<close>. The value of a literal is rounded to binary64. A \<open>char\<close>
  stands for a code unit below 256.
\<close>

definition StrWhiteSpaceChar :: "char \<Rightarrow> bool" where
  "StrWhiteSpaceChar c = (of_char c \<in> set [9, 10, 11, 12, 13, 32, 160 :: nat])"

definition trim :: "string \<Rightarrow> string" where
  "trim s = rev (dropWhile StrWhiteSpaceChar (rev (dropWhile StrWhiteSpaceChar s)))"

definition digit_of :: "nat \<Rightarrow> char \<Rightarrow> nat option" where
  "digit_of b c =
     (let n = (of_char c :: nat);
          v = (if 48 \<le> n \<and> n \<le> 57 then Some (n - 48)
               else if 97 \<le> n \<and> n \<le> 102 then Some (n - 87)
               else if 65 \<le> n \<and> n \<le> 70 then Some (n - 55)
               else None)
      in case v of None \<Rightarrow> None | Some d \<Rightarrow> if d < b then Some d else None)"

text \<open>The value of a non-empty run of digits in base \<open>b\<close>; \<open>None\<close> on any other character.\<close>

fun digits_acc :: "nat \<Rightarrow> nat \<Rightarrow> string \<Rightarrow> nat option" where
  "digits_acc b acc [] = Some acc"
| "digits_acc b acc (c # cs) =
     (case digit_of b c of None \<Rightarrow> None | Some d \<Rightarrow> digits_acc b (b * acc + d) cs)"

definition digits_opt :: "nat \<Rightarrow> string \<Rightarrow> nat option" where
  "digits_opt b s = digits_acc b 0 s"

definition digits1 :: "nat \<Rightarrow> string \<Rightarrow> nat option" where
  "digits1 b s = (if s = [] then None else digits_acc b 0 s)"

text \<open>Splitting a string at the first character that satisfies \<open>p\<close>.\<close>

definition split_first :: "(char \<Rightarrow> bool) \<Rightarrow> string \<Rightarrow> string \<times> string option" where
  "split_first p s =
     (case dropWhile (\<lambda>c. \<not> p c) s of
        [] \<Rightarrow> (s, None)
      | _ # r \<Rightarrow> (takeWhile (\<lambda>c. \<not> p c) s, Some r))"

definition SignedInteger :: "string \<Rightarrow> int option" where
  "SignedInteger s =
     (case s of
        [] \<Rightarrow> None
      | c # r \<Rightarrow>
          if c = CHR ''+'' then map_option int (digits1 10 r)
          else if c = CHR ''-'' then map_option (\<lambda>n. - int n) (digits1 10 r)
          else map_option int (digits1 10 s))"

definition scale10 :: "rat \<Rightarrow> int \<Rightarrow> rat" where
  "scale10 q e = (if 0 \<le> e then q * 10 ^ nat e else q / 10 ^ nat (- e))"

definition Mantissa :: "string \<Rightarrow> rat option" where
  "Mantissa m =
     (case split_first (\<lambda>c. c = CHR ''.'') m of
        (i, None) \<Rightarrow> map_option of_nat (digits1 10 i)
      | (i, Some f) \<Rightarrow>
          if i = [] \<and> f = [] then None
          else (case (digits_opt 10 i, digits_opt 10 f) of
                  (Some a, Some b) \<Rightarrow> Some (of_nat a + of_nat b / 10 ^ length f)
                | _ \<Rightarrow> None))"

definition StrUnsignedDecimalLiteral :: "string \<Rightarrow> jsnum" where
  "StrUnsignedDecimalLiteral s =
     (if s = ''Infinity'' then PosInf
      else case split_first (\<lambda>c. c = CHR ''e'' \<or> c = CHR ''E'') s of
        (m, None) \<Rightarrow> (case Mantissa m of None \<Rightarrow> NaN | Some q \<Rightarrow> round64 q)
      | (m, Some x) \<Rightarrow>
          (case (Mantissa m, SignedInteger x) of
             (Some q, Some e) \<Rightarrow> round64 (scale10 q e)
           | _ \<Rightarrow> NaN))"

definition StrDecimalLiteral :: "string \<Rightarrow> jsnum" where
  "StrDecimalLiteral s =
     (case s of
        [] \<Rightarrow> NaN
      | c # r \<Rightarrow>
          if c = CHR ''+'' then StrUnsignedDecimalLiteral r
          else if c = CHR ''-'' then uminus_js (StrUnsignedDecimalLiteral r)
          else StrUnsignedDecimalLiteral s)"

definition NonDecimalIntegerLiteral :: "string \<Rightarrow> jsnum option" where
  "NonDecimalIntegerLiteral s =
     (case s of
        z # p # r \<Rightarrow>
          if z \<noteq> CHR ''0'' then None
          else if p = CHR ''x'' \<or> p = CHR ''X'' then
            Some (case digits1 16 r of None \<Rightarrow> NaN | Some n \<Rightarrow> round64 (of_nat n))
          else if p = CHR ''o'' \<or> p = CHR ''O'' then
            Some (case digits1 8 r of None \<Rightarrow> NaN | Some n \<Rightarrow> round64 (of_nat n))
          else if p = CHR ''b'' \<or> p = CHR ''B'' then
            Some (case digits1 2 r of None \<Rightarrow> NaN | Some n \<Rightarrow> round64 (of_nat n))
          else None
      | _ \<Rightarrow> None)"

definition Number :: "string \<Rightarrow> jsnum" where
  "Number s =
     (let t = trim s in
      if t = [] then Finite 0
      else case NonDecimalIntegerLiteral t of
             Some n \<Rightarrow> n
           | None \<Rightarrow> StrDecimalLiteral t)"

section \<open>Stops\<close>

text \<open>The interface \<open>Stop\<close> of \<open>types.ts\<close>; an optional field is an \<open>option\<close>.\<close>

datatype StopStatus = Planned | Visited | Skipped

record Stop =
  id_stop :: string
  title :: string
  address :: string
  dateTime :: string
  notes_stop :: "string option"
  cost :: "jsnum option"
  status :: StopStatus
  order :: nat

text \<open>The six named inputs of the form that \<open>addStop\<close> reads through \<open>FormData\<close>.\<close>

record FormData =
  form_title :: string
  form_address :: string
  form_date :: string
  form_time :: string
  form_notes :: string
  form_cost :: string

section \<open>Dates and sorting\<close>

text \<open>
  \<open>parseISO\<close> belongs to the date library and reads a string in the local time zone, so it
  is a parameter of everything that sorts: a function from strings to time values, where
  \<open>None\<close> is the invalid date. \<open>compareAsc\<close> of the same library subtracts the two time
  values and returns \<open>-1\<close>, \<open>1\<close>, or the difference itself, which is \<open>0\<close> or \<open>NaN\<close>.
\<close>

type_synonym parser = "string \<Rightarrow> int option"

definition compareAsc :: "int option \<Rightarrow> int option \<Rightarrow> jsnum" where
  "compareAsc dateLeft dateRight =
     (case (dateLeft, dateRight) of
        (Some l, Some r) \<Rightarrow>
          if l - r < 0 then Finite (- 1) else if l - r > 0 then Finite 1 else Finite 0
      | _ \<Rightarrow> NaN)"

definition byDateTime :: "parser \<Rightarrow> Stop \<Rightarrow> Stop \<Rightarrow> jsnum" where
  "byDateTime parseISO a b = compareAsc (parseISO (dateTime a)) (parseISO (dateTime b))"

text \<open>
  \<open>Array.prototype.sort\<close> with a comparator: a \<open>NaN\<close> from the comparator counts as \<open>0\<close>,
  and the sort is stable. For a consistent comparator the result is the one stable sorted
  arrangement, computed here by insertion from the right. For an inconsistent comparator
  (an invalid date compares as equal to everything) the language leaves the order to the
  engine; the model still returns a permutation, and no statement about the order is made
  for that case.
\<close>

definition SortCompare :: "('a \<Rightarrow> 'a \<Rightarrow> jsnum) \<Rightarrow> 'a \<Rightarrow> 'a \<Rightarrow> jsnum" where
  "SortCompare comparefn x y = (let v = comparefn x y in if v = NaN then Finite 0 else v)"

definition positive :: "jsnum \<Rightarrow> bool" where
  "positive n = (case n of NaN \<Rightarrow> False | NegInf \<Rightarrow> False | PosInf \<Rightarrow> True
                 | Finite q \<Rightarrow> 0 < q)"

fun insert_js :: "('a \<Rightarrow> 'a \<Rightarrow> jsnum) \<Rightarrow> 'a \<Rightarrow> 'a list \<Rightarrow> 'a list" where
  "insert_js comparefn x [] = [x]"
| "insert_js comparefn x (y # ys) =
     (if positive (SortCompare comparefn x y) then y # insert_js comparefn x ys
      else x # y # ys)"

definition sort_js :: "('a \<Rightarrow> 'a \<Rightarrow> jsnum) \<Rightarrow> 'a list \<Rightarrow> 'a list" where
  "sort_js comparefn xs = foldr (insert_js comparefn) xs []"

text \<open>The time value of a stop whose date is valid, used to state what sorted means.\<close>

definition instant :: "parser \<Rightarrow> Stop \<Rightarrow> int" where
  "instant parseISO s = the (parseISO (dateTime s))"

definition valid_date :: "parser \<Rightarrow> Stop \<Rightarrow> bool" where
  "valid_date parseISO s = (parseISO (dateTime s) \<noteq> None)"

section \<open>The component state\<close>

text \<open>
  The state of \<open>App\<close> that the itinerary logic reads and writes: the \<open>stops\<close> state
  variable, the entry \<open>tourmate_stops\<close> of \<open>localStorage\<close> (\<open>None\<close> when the key is absent,
  otherwise the array that was serialised), and the number of alerts shown. The tips
  request, the clock and the state of the view are left out.
\<close>

record AppState =
  stops :: "Stop list"
  storage :: "Stop list option"
  alerts :: nat

text \<open>
  The body of the effect \<open>Save data & Check for reset\<close>, which depends on \<open>stops\<close>: with
  more than ten stops it shows the alert, calls \<open>setStops([])\<close> and removes the key;
  otherwise it writes the collection under the key.
\<close>

definition saveEffect :: "AppState \<Rightarrow> AppState" where
  "saveEffect a =
     (if length (stops a) > 10
      then a\<lparr>alerts := alerts a + 1, stops := [], storage := None\<rparr>
      else a\<lparr>storage := Some (stops a)\<rparr>)"

text \<open>
  The body of the component formats the time of every stop of \<open>sortedStops\<close>, in both
  columns and whatever tab is active: \<open>format(parseISO(stop.dateTime), 'HH:mm')\<close>. On an
  invalid date \<open>format\<close> throws a \<open>RangeError\<close>; nothing catches it, so the render is
  discarded, no effect runs, and the component is gone.
\<close>

datatype error = RangeError

definition format_throws :: "parser \<Rightarrow> Stop list \<Rightarrow> bool" where
  "format_throws parseISO xs = list_ex (\<lambda>s. parseISO (dateTime s) = None) xs"

text \<open>
  A render that does not throw commits the state and runs the effect, because \<open>stops\<close>
  has changed. When the effect itself calls \<open>setStops([])\<close>, the fresh array is again a
  change of \<open>stops\<close>, so the component renders once more and the effect runs on the empty
  collection.
\<close>

function render :: "parser \<Rightarrow> AppState \<Rightarrow> error + AppState" where
  "render parseISO a =
     (if format_throws parseISO (stops a) then Inl RangeError
      else if length (stops a) > 10 then render parseISO (saveEffect a)
      else Inr (saveEffect a))"
  by pat_completeness auto
termination
  by (relation "measure (\<lambda>(p, a). if length (stops a) > 10 then 1 else 0)")
     (auto simp: saveEffect_def)

declare render.simps [simp del]

definition setStops :: "parser \<Rightarrow> Stop list \<Rightarrow> AppState \<Rightarrow> error + AppState" where
  "setStops parseISO xs a = render parseISO (a\<lparr>stops := xs\<rparr>)"

text \<open>
  The state after the first render of a browser with nothing saved: the collection is
  empty and the effect has written the empty array. The effect \<open>Load data\<close> of a later
  start puts into \<open>stops\<close> what the key holds, and leaves the empty collection when the
  key is absent.
\<close>

definition initial :: AppState where
  "initial = \<lparr>stops = [], storage = Some [], alerts = 0\<rparr>"


text \<open>Running an operation on the state an earlier one returned, unless that one threw.\<close>

definition and_then :: "error + AppState \<Rightarrow> (AppState \<Rightarrow> error + AppState) \<Rightarrow> error + AppState"
  where "and_then r f = (case r of Inl e \<Rightarrow> Inl e | Inr a \<Rightarrow> f a)"

section \<open>Operations\<close>

text \<open>
  \<open>addStop\<close>: the identifier comes from \<open>crypto.randomUUID()\<close> and is an argument here;
  \<open>n\<close> is \<open>stops.length\<close> at the time of the call.
\<close>

definition newStop :: "string \<Rightarrow> FormData \<Rightarrow> nat \<Rightarrow> Stop" where
  "newStop uuid fd n =
     \<lparr>id_stop = uuid,
      title = form_title fd,
      address = form_address fd,
      dateTime = form_date fd @ ''T'' @ form_time fd,
      notes_stop = Some (form_notes fd),
      cost = Some (js_or (Number (form_cost fd)) (Finite 0)),
      status = Planned,
      order = n\<rparr>"

definition updatedStops :: "parser \<Rightarrow> string \<Rightarrow> FormData \<Rightarrow> Stop list \<Rightarrow> Stop list" where
  "updatedStops parseISO uuid fd xs =
     sort_js (byDateTime parseISO) (xs @ [newStop uuid fd (length xs)])"

definition addStop :: "parser \<Rightarrow> string \<Rightarrow> FormData \<Rightarrow> AppState \<Rightarrow> error + AppState" where
  "addStop parseISO uuid fd a =
     setStops parseISO (updatedStops parseISO uuid fd (stops a)) a"

text \<open>
  \<open>toggleStatus\<close> maps over the previous collection and replaces the status of every stop
  with the identifier by \<open>forceStatus || (s.status === 'visited' ? 'planned' : 'visited')\<close>;
  \<open>deleteStop\<close> keeps the stops with another identifier.
\<close>

definition nextStatus :: "StopStatus option \<Rightarrow> StopStatus \<Rightarrow> StopStatus" where
  "nextStatus forceStatus cur =
     (case forceStatus of
        Some f \<Rightarrow> f
      | None \<Rightarrow> if cur = Visited then Planned else Visited)"

definition toggled :: "string \<Rightarrow> StopStatus option \<Rightarrow> Stop list \<Rightarrow> Stop list" where
  "toggled i forceStatus prev =
     map (\<lambda>s. if id_stop s = i then s\<lparr>status := nextStatus forceStatus (status s)\<rparr> else s) prev"

definition toggleStatus ::
  "parser \<Rightarrow> string \<Rightarrow> StopStatus option \<Rightarrow> AppState \<Rightarrow> error + AppState" where
  "toggleStatus parseISO i forceStatus a =
     setStops parseISO (toggled i forceStatus (stops a)) a"

definition deleteStop :: "parser \<Rightarrow> string \<Rightarrow> AppState \<Rightarrow> error + AppState" where
  "deleteStop parseISO i a = setStops parseISO (filter (\<lambda>s. id_stop s \<noteq> i) (stops a)) a"

section \<open>Derived values\<close>

text \<open>The values computed from \<open>stops\<close> on every render.\<close>

definition sortedStops :: "parser \<Rightarrow> Stop list \<Rightarrow> Stop list" where
  "sortedStops parseISO xs = sort_js (byDateTime parseISO) xs"

definition nextStop :: "parser \<Rightarrow> Stop list \<Rightarrow> Stop option" where
  "nextStop parseISO xs = find (\<lambda>s. status s = Planned) (sortedStops parseISO xs)"

definition skippedStops :: "parser \<Rightarrow> Stop list \<Rightarrow> Stop list" where
  "skippedStops parseISO xs = filter (\<lambda>s. status s = Skipped) (sortedStops parseISO xs)"

definition completedStops :: "parser \<Rightarrow> Stop list \<Rightarrow> Stop list" where
  "completedStops parseISO xs = filter (\<lambda>s. status s = Visited) (sortedStops parseISO xs)"

text \<open>\<open>stop.cost || 0\<close>: an absent cost is \<open>undefined\<close>, which is falsy.\<close>

definition cost_or_zero :: "Stop \<Rightarrow> jsnum" where
  "cost_or_zero s = (case cost s of None \<Rightarrow> Finite 0 | Some c \<Rightarrow> js_or c (Finite 0))"

definition totalCost :: "Stop list \<Rightarrow> jsnum" where
  "totalCost xs = foldl (\<lambda>acc stop. acc + cost_or_zero stop) (Finite 0) xs"

text \<open>
  The exact value of a stored cost, for stating when the running total is exact: a cost
  is whole when it is absent or a finite integer.
\<close>

definition cost_value :: "Stop \<Rightarrow> rat" where
  "cost_value s = (case cost s of Some (Finite q) \<Rightarrow> q | _ \<Rightarrow> 0)"

definition whole_cost :: "Stop \<Rightarrow> bool" where
  "whole_cost s =
     (case cost s of None \<Rightarrow> True | Some (Finite q) \<Rightarrow> q = of_int \<lfloor>q\<rfloor> | Some _ \<Rightarrow> False)"

section \<open>Sequences of calls and reachable states\<close>

text \<open>
  A sequence of \<open>addStop\<close> calls, each with the identifier it draws and the form it reads;
  a call that throws ends the sequence. And the stops these calls construct when the
  collection holds \<open>n\<close> stops before the first of them and none is removed in between.
\<close>

fun addStops :: "parser \<Rightarrow> (string \<times> FormData) list \<Rightarrow> AppState \<Rightarrow> error + AppState" where
  "addStops parseISO [] a = Inr a"
| "addStops parseISO ((uuid, fd) # cs) a =
     and_then (addStop parseISO uuid fd a) (addStops parseISO cs)"

fun created :: "nat \<Rightarrow> (string \<times> FormData) list \<Rightarrow> Stop list" where
  "created n [] = []"
| "created n ((uuid, fd) # cs) = newStop uuid fd n # created (Suc n) cs"

text \<open>A stop without its \<open>order\<close> number, to compare runs that differ in the order of calls.\<close>

definition forget_order :: "Stop \<Rightarrow> Stop" where
  "forget_order s = s\<lparr>order := 0\<rparr>"

text \<open>
  The states the component reaches from the first render through the three operations:
  every step is a call that returns, that is, whose render does not throw.
\<close>

inductive reachable :: "parser \<Rightarrow> AppState \<Rightarrow> bool" for parseISO :: parser where
  start: "reachable parseISO initial"
| add: "reachable parseISO a \<Longrightarrow> addStop parseISO uuid fd a = Inr a' \<Longrightarrow>
        reachable parseISO a'"
| toggle: "reachable parseISO a \<Longrightarrow> toggleStatus parseISO i forceStatus a = Inr a' \<Longrightarrow>
        reachable parseISO a'"
| delete: "reachable parseISO a \<Longrightarrow> deleteStop parseISO i a = Inr a' \<Longrightarrow>
        reachable parseISO a'"

section \<open>Concrete inputs\<close>

text \<open>
  One instance of the parameter \<open>parseISO\<close>, for evaluating the model: it reads the shape
  \<open>YYYY-MM-DDTHH:mm\<close> that the date and time inputs of the form produce, in a zone with
  no offset, as milliseconds since the epoch; every other string is an invalid date.
\<close>

definition leap_year :: "nat \<Rightarrow> bool" where
  "leap_year y = (y mod 4 = 0 \<and> (y mod 100 \<noteq> 0 \<or> y mod 400 = 0))"

definition days_in_month :: "nat \<Rightarrow> nat \<Rightarrow> nat" where
  "days_in_month y m =
     (if m = 2 then (if leap_year y then 29 else 28)
      else if m = 4 \<or> m = 6 \<or> m = 9 \<or> m = 11 then 30 else 31)"

definition days_from_civil :: "nat \<Rightarrow> nat \<Rightarrow> nat \<Rightarrow> int" where
  "days_from_civil y m d =
     (let y' = int y - (if m \<le> 2 then 1 else 0);
          m' = (int m + 9) mod 12
      in 365 * y' + y' div 4 - y' div 100 + y' div 400 + (153 * m' + 2) div 5 + int d - 1
           - 719468)"

definition parse_form_utc :: parser where
  "parse_form_utc s =
     (if length s = 16 \<and> s ! 4 = CHR ''-'' \<and> s ! 7 = CHR ''-'' \<and> s ! 10 = CHR ''T''
         \<and> s ! 13 = CHR '':''
      then (case (digits1 10 (take 4 s), digits1 10 (take 2 (drop 5 s)),
                  digits1 10 (take 2 (drop 8 s)), digits1 10 (take 2 (drop 11 s)),
                  digits1 10 (drop 14 s)) of
              (Some y, Some m, Some d, Some h, Some mi) \<Rightarrow>
                if 1 \<le> m \<and> m \<le> 12 \<and> 1 \<le> d \<and> d \<le> days_in_month y m \<and> h < 24 \<and> mi < 60
                then Some (((days_from_civil y m d * 24 + int h) * 60 + int mi) * 60000)
                else None
            | _ \<Rightarrow> None)
      else None)"

text \<open>A submitted form for the first of May 2024 at time \<open>t\<close> with the cost input \<open>c\<close>.\<close>

definition fd_at :: "string \<Rightarrow> string \<Rightarrow> FormData" where
  "fd_at t c = \<lparr>form_title = ''Borobudur'', form_address = ''Magelang'',
      form_date = ''2024-05-01'', form_time = t, form_notes = '''', form_cost = c\<rparr>"

text \<open>Two calls, the later time first, and the state they lead to; ten calls at 10:00 to
  19:00 and the state they fill.\<close>

definition two_calls :: "(string \<times> FormData) list" where
  "two_calls = [(''a'', fd_at ''10:00'' ''50000''), (''b'', fd_at ''09:00'' '''')]"

definition two_state :: AppState where
  "two_state =
     \<lparr>stops = [newStop ''b'' (fd_at ''09:00'' '''') 1,
               newStop ''a'' (fd_at ''10:00'' ''50000'') 0],
      storage = Some [newStop ''b'' (fd_at ''09:00'' '''') 1,
                      newStop ''a'' (fd_at ''10:00'' ''50000'') 0],
      alerts = 0\<rparr>"



text \<open>Stops with given costs, and four stops in chronological order with given statuses.\<close>

definition with_costs :: "jsnum option list \<Rightarrow> Stop list" where
  "with_costs cs = map (\<lambda>c. (newStop ''s'' (fd_at ''10:00'' '''') 0)\<lparr>cost := c\<rparr>) cs"

definition four_statuses :: "Stop list" where
  "four_statuses =
     map2 (\<lambda>(uuid, fd) st. (newStop uuid fd 0)\<lparr>status := st\<rparr>)
       [(''p'', fd_at ''08:00'' ''''), (''q'', fd_at ''09:00'' ''''),
        (''r'', fd_at ''10:00'' ''''), (''s'', fd_at ''11:00'' '''')]
       [Visited, Skipped, Planned, Planned]"

section \<open>Rounding\<close>

text \<open>An integer of magnitude at most \<open>2 ^ 53\<close> is a binary64 value: rounding keeps it.\<close>

lemma halvings_le: "1 \<le> a \<Longrightarrow> 2 ^ halvings a \<le> a"
proof (induction a rule: halvings.induct)
  case (1 a)
  show ?case
  proof (cases "2 \<le> a")
    case True
    then have "2 ^ halvings (a / 2) \<le> a / 2" using 1 by simp
    then show ?thesis using True by (subst halvings.simps) simp
  next
    case False
    then show ?thesis using 1 by (subst halvings.simps) simp
  qed
qed

lemma half_even_of_int: "half_even (of_int z) = z"
  by (simp add: half_even_def)

lemma round64_positive_int:
  assumes "0 < n" and "n \<le> 2 ^ 53"
  shows "scale2 (of_int (half_even (scale2 (of_int n) (52 - int (halvings (of_int n))))))
           (int (halvings (of_int n)) - 52) = of_int n"
proof -
  define a :: rat where "a = of_int n"
  define h where "h = halvings a"
  have a1: "1 \<le> a" using assms(1) by (simp add: a_def)
  have lo: "2 ^ h \<le> a" unfolding h_def using a1 by (rule halvings_le)
  have hi: "a \<le> 2 ^ 53"
    unfolding a_def using assms(2) by (metis of_int_le_iff of_int_numeral of_int_power)
  from lo hi have "(2::rat) ^ h \<le> 2 ^ 53" by (rule order_trans)
  then have h53: "h \<le> 53" by (rule power_le_imp_le_exp [rotated]) simp
  have "scale2 (of_int (half_even (scale2 a (52 - int h)))) (int h - 52) = a"
  proof (cases "h \<le> 52")
    case True
    then have s: "scale2 a (52 - int h) = of_int (n * 2 ^ (52 - h))"
      by (simp add: scale2_def nat_diff_distrib' a_def)
    show ?thesis
      unfolding s half_even_of_int using True
      by (simp add: scale2_def nat_diff_distrib' a_def)
  next
    case False
    with h53 have h: "h = 53" by simp
    from lo hi have a: "a = 2 ^ 53" unfolding h by (rule order_antisym [rotated])
    have s: "scale2 a (52 - int h) = of_int (2 ^ 52)"
      unfolding h a by (simp add: scale2_def)
    show ?thesis
      unfolding s half_even_of_int unfolding h a by (simp add: scale2_def)
  qed
  then show ?thesis by (simp add: h_def a_def)
qed

lemma round64_int:
  assumes "\<bar>k\<bar> \<le> 2 ^ 53"
  shows "round64 (of_int k) = Finite (of_int k)"
proof (cases "k = 0")
  case True
  then show ?thesis by (simp add: round64_def)
next
  case False
  define n where "n = \<bar>k\<bar>"
  have n: "0 < n" "n \<le> 2 ^ 53" using False assms by (simp_all add: n_def)
  have abs: "\<bar>of_int k :: rat\<bar> = of_int n" by (simp add: n_def)
  have one: "(1::rat) \<le> of_int n" using n(1) by simp
  have e: "exponent (of_int n) = int (halvings (of_int n))"
    using one by (simp add: exponent_def)
  have v: "scale2 (of_int (half_even (scale2 (of_int n) (52 - int (halvings (of_int n))))))
           (int (halvings (of_int n)) - 52) = of_int n"
    using n by (rule round64_positive_int)
  have small: "\<not> (2::rat) ^ 1024 \<le> of_int n"
  proof -
    have "(of_int n :: rat) \<le> 2 ^ 53"
      using n(2) by (metis of_int_le_iff of_int_numeral of_int_power)
    also have "\<dots> < 2 ^ 1024" by simp
    finally show ?thesis by simp
  qed
  have k0: "(of_int k :: rat) \<noteq> 0" using False by simp
  have "round64 (of_int k) = Finite (if (of_int k :: rat) < 0 then - of_int n else of_int n)"
    using k0 small by (simp add: round64_def abs Let_def e v)
  then show ?thesis by (simp add: n_def)
qed

lemma round64_numeral:
  "(numeral n :: int) \<le> 2 ^ 53 \<Longrightarrow> round64 (numeral n) = Finite (numeral n)"
  using round64_int [of "numeral n"] by simp

text \<open>Beyond \<open>2 ^ 53\<close> the odd integers are not binary64 values; a tie goes to the even side.\<close>

lemma floor_numeral_div_rat:
  "\<lfloor>(numeral a :: rat) / numeral b\<rfloor> = numeral a div numeral b"
  using floor_divide_of_int_eq [of "numeral a" "numeral b", where ?'a = rat] by simp

lemma round64_tie: "round64 (2 ^ 53 + 1) = Finite (2 ^ 53)"
  by (simp add: round64_def exponent_def halvings.simps scale2_def half_even_def Let_def
      floor_numeral_div_rat)

section \<open>Rendering and the three updates\<close>

lemma format_throws_iff: "format_throws P xs = (\<not> (\<forall>s\<in>set xs. valid_date P s))"
  by (auto simp: format_throws_def valid_date_def list_ex_iff)

lemma render_throws: "format_throws P (stops a) \<Longrightarrow> render P a = Inl RangeError"
  by (subst render.simps) simp

lemma render_small:
  "\<not> format_throws P (stops a) \<Longrightarrow> length (stops a) \<le> 10 \<Longrightarrow>
   render P a = Inr (a\<lparr>storage := Some (stops a)\<rparr>)"
  by (subst render.simps) (simp add: saveEffect_def)

lemma render_big:
  "\<not> format_throws P (stops a) \<Longrightarrow> length (stops a) > 10 \<Longrightarrow>
   render P a = Inr (a\<lparr>alerts := alerts a + 1, stops := [], storage := Some []\<rparr>)"
  by (subst render.simps, simp add: saveEffect_def)
     (subst render.simps, simp add: saveEffect_def format_throws_def)

lemma setStops_valid:
  assumes "\<forall>s\<in>set xs. valid_date P s"
  shows "setStops P xs a
     = Inr (if length xs > 10 then a\<lparr>alerts := alerts a + 1, stops := [], storage := Some []\<rparr>
            else a\<lparr>stops := xs, storage := Some xs\<rparr>)"
proof -
  have n: "\<not> format_throws P (stops (a\<lparr>stops := xs\<rparr>))"
    using assms by (simp add: format_throws_iff)
  show ?thesis
  proof (cases "length xs > 10")
    case True
    then show ?thesis unfolding setStops_def using render_big [OF n] by simp
  next
    case False
    then show ?thesis unfolding setStops_def using render_small [OF n] by simp
  qed
qed

lemma setStops_invalid:
  "\<not> (\<forall>s\<in>set xs. valid_date P s) \<Longrightarrow> setStops P xs a = Inl RangeError"
  unfolding setStops_def by (rule render_throws) (simp add: format_throws_iff)

lemma setStops_Inr:
  assumes "setStops P xs a = Inr a'"
  shows "(\<forall>s\<in>set xs. valid_date P s)
    \<and> a' = (if length xs > 10 then a\<lparr>alerts := alerts a + 1, stops := [], storage := Some []\<rparr>
            else a\<lparr>stops := xs, storage := Some xs\<rparr>)"
proof (cases "\<forall>s\<in>set xs. valid_date P s")
  case True
  then show ?thesis using assms setStops_valid [OF True, of a] by simp
next
  case False
  then show ?thesis using assms setStops_invalid [OF False, of a] by simp
qed

lemma length_toggled: "length (toggled i f xs) = length xs"
  by (simp add: toggled_def)

lemma toggled_absent: "i \<notin> id_stop ` set xs \<Longrightarrow> toggled i f xs = xs"
  by (induction xs) (auto simp: toggled_def)

lemma toggled_forced_idem:
  "toggled i (Some v) (toggled i (Some v) xs) = toggled i (Some v) xs"
  by (induction xs) (auto simp: toggled_def nextStatus_def)

lemma instant_toggled: "map (instant P) (toggled i f xs) = map (instant P) xs"
  by (induction xs) (auto simp: toggled_def instant_def)

lemma dateTime_toggled: "map dateTime (toggled i f xs) = map dateTime xs"
  by (induction xs) (auto simp: toggled_def)

lemma valid_toggled:
  "(\<forall>s\<in>set (toggled i f xs). valid_date P s) = (\<forall>s\<in>set xs. valid_date P s)"
  by (induction xs) (auto simp: toggled_def valid_date_def)

lemma filter_absent: "i \<notin> id_stop ` set xs \<Longrightarrow> filter (\<lambda>s. id_stop s \<noteq> i) xs = xs"
  by (induction xs) auto

lemma filter_remove1:
  "distinct (map id_stop xs) \<Longrightarrow> x \<in> set xs \<Longrightarrow>
   filter (\<lambda>s. id_stop s \<noteq> id_stop x) xs = remove1 x xs"
proof (induction xs)
  case Nil
  then show ?case by simp
next
  case (Cons y ys)
  show ?case
  proof (cases "y = x")
    case True
    with Cons.prems have "id_stop x \<notin> id_stop ` set ys" by auto
    then show ?thesis using True by (simp add: filter_absent)
  next
    case False
    with Cons.prems have "x \<in> set ys" "id_stop y \<noteq> id_stop x" by auto
    then show ?thesis using Cons False by simp
  qed
qed


section \<open>Sorting\<close>

text \<open>The sort permutes its input, whatever the comparator.\<close>

lemma mset_insert_js: "mset (insert_js f x ys) = add_mset x (mset ys)"
  by (induction ys) simp_all

lemma mset_sort_js: "mset (sort_js f xs) = mset xs"
  by (induction xs) (simp_all add: sort_js_def mset_insert_js)

lemma set_sort_js: "set (sort_js f xs) = set xs"
  using mset_sort_js [of f xs] by (metis set_mset_mset)

lemma length_sort_js: "length (sort_js f xs) = length xs"
  using mset_sort_js [of f xs] by (metis size_mset)

lemma length_updatedStops: "length (updatedStops P u fd xs) = Suc (length xs)"
  by (simp add: updatedStops_def length_sort_js)

lemma set_updatedStops:
  "set (updatedStops P u fd xs) = insert (newStop u fd (length xs)) (set xs)"
  by (simp add: updatedStops_def set_sort_js)


text \<open>On valid dates the comparator is the order of the time values, and the sort is the
  stable sort by that key.\<close>

lemma positive_byDateTime:
  assumes "valid_date P x" and "valid_date P y"
  shows "positive (SortCompare (byDateTime P) x y) = (instant P y < instant P x)"
proof -
  obtain l r where "P (dateTime x) = Some l" "P (dateTime y) = Some r"
    using assms by (auto simp: valid_date_def)
  then show ?thesis
    by (simp add: byDateTime_def compareAsc_def SortCompare_def positive_def instant_def)
qed

lemma insert_js_insort:
  "valid_date P x \<Longrightarrow> \<forall>y\<in>set ys. valid_date P y \<Longrightarrow>
   insert_js (byDateTime P) x ys = insort_key (instant P) x ys"
  by (induction ys) (auto simp: positive_byDateTime)

lemma sort_js_sort_key:
  "\<forall>y\<in>set xs. valid_date P y \<Longrightarrow> sort_js (byDateTime P) xs = sort_key (instant P) xs"
proof (induction xs)
  case Nil
  then show ?case by (simp add: sort_js_def)
next
  case (Cons x xs)
  then have ih: "sort_js (byDateTime P) xs = sort_key (instant P) xs" by simp
  have "sort_js (byDateTime P) (x # xs) = insert_js (byDateTime P) x (sort_js (byDateTime P) xs)"
    by (simp add: sort_js_def)
  also have "\<dots> = insort_key (instant P) x (sort_key (instant P) xs)"
    using Cons.prems by (simp add: ih insert_js_insort)
  finally show ?case by simp
qed

lemma sorted_sort_js:
  "\<forall>y\<in>set xs. valid_date P y \<Longrightarrow> sorted (map (instant P) (sort_js (byDateTime P) xs))"
  by (simp add: sort_js_sort_key)

lemma sort_js_id:
  "\<forall>y\<in>set xs. valid_date P y \<Longrightarrow> sorted (map (instant P) xs) \<Longrightarrow>
   sort_js (byDateTime P) xs = xs"
  by (simp add: sort_js_sort_key sort_key_id_if_sorted)

text \<open>With pairwise distinct keys there is one sorted arrangement of a collection.\<close>

lemma filter_key_single:
  "distinct (map f xs) \<Longrightarrow> k \<in> set xs \<Longrightarrow> filter (\<lambda>x. f k = f x) xs = [k]"
proof (induction xs)
  case Nil
  then show ?case by simp
next
  case (Cons y ys)
  show ?case
  proof (cases "y = k")
    case True
    with Cons.prems have "\<forall>x\<in>set ys. f k \<noteq> f x" by auto
    then have "filter (\<lambda>x. f k = f x) ys = []" by (simp add: filter_empty_conv)
    then show ?thesis using True by simp
  next
    case False
    with Cons.prems have k: "k \<in> set ys" and d: "distinct (map f ys)" by auto
    from Cons.prems(1) have "f y \<notin> f ` set ys" by simp
    with k have "f k \<noteq> f y" by (metis imageI)
    then show ?thesis using Cons.IH [OF d k] by simp
  qed
qed

lemma sorted_unique:
  assumes "mset ys = mset xs" and "distinct (map f xs)" and "sorted (map f ys)"
  shows "sort_key f xs = ys"
proof (rule properties_for_sort_key)
  show "mset ys = mset xs" by fact
  show "sorted (map f ys)" by fact
  have dy: "distinct (map f ys)"
    using assms(1,2) by (metis distinct_map mset_eq_setD mset_eq_imp_distinct_iff)
  show "\<And>k. k \<in> set ys \<Longrightarrow> filter (\<lambda>x. f k = f x) ys = filter (\<lambda>x. f k = f x) xs"
  proof -
    fix k assume k: "k \<in> set ys"
    then have "k \<in> set xs" using assms(1) by (metis mset_eq_setD)
    then show "filter (\<lambda>x. f k = f x) ys = filter (\<lambda>x. f k = f x) xs"
      using k dy assms(2) by (simp add: filter_key_single)
  qed
qed

section \<open>Sequences of additions\<close>


lemma map_forget_created:
  "map forget_order (created n cs) = map (\<lambda>(u, fd). newStop u fd 0) cs"
  by (induction cs arbitrary: n) (auto simp: forget_order_def newStop_def)

lemma instant_forget: "instant P (forget_order s) = instant P s"
  by (simp add: instant_def forget_order_def)

lemma valid_forget: "valid_date P (forget_order s) = valid_date P s"
  by (simp add: valid_date_def forget_order_def)

lemma insort_key_forget:
  "map forget_order (insort_key (instant P) x xs)
     = insort_key (instant P) (forget_order x) (map forget_order xs)"
  by (induction xs) (simp_all add: instant_forget)

lemma sort_key_forget:
  "map forget_order (sort_key (instant P) xs) = sort_key (instant P) (map forget_order xs)"
  by (induction xs) (simp_all add: insort_key_forget)

lemma instants_created:
  "map (instant P) (created n cs)
     = map (\<lambda>c. instant P (case c of (u, fd) \<Rightarrow> newStop u fd 0)) cs"
proof -
  have "map (instant P) (created n cs) = map (instant P) (map forget_order (created n cs))"
    by (simp add: instant_forget comp_def)
  then show ?thesis by (simp add: map_forget_created comp_def)
qed

lemma valid_created_perm:
  assumes "mset cs' = mset cs" and "\<forall>s\<in>set (created 0 cs). valid_date P s"
  shows "\<forall>s\<in>set (created 0 cs'). valid_date P s"
proof
  fix s assume "s \<in> set (created 0 cs')"
  then have "forget_order s \<in> set (map forget_order (created 0 cs'))" by simp
  then have "forget_order s \<in> set (map (\<lambda>(u, fd). newStop u fd 0) cs')"
    by (simp only: map_forget_created)
  then have "forget_order s \<in> set (map (\<lambda>(u, fd). newStop u fd 0) cs)"
    using assms(1) by (metis mset_eq_setD set_map)
  then have "forget_order s \<in> set (map forget_order (created 0 cs))"
    by (simp only: map_forget_created)
  then obtain t where "t \<in> set (created 0 cs)" "forget_order s = forget_order t" by auto
  then show "valid_date P s" using assms(2) by (metis valid_forget)
qed

lemma distinct_created_perm:
  assumes "mset cs' = mset cs" and "distinct (map (instant P) (created 0 cs))"
  shows "distinct (map (instant P) (created 0 cs'))"
proof -
  let ?g = "\<lambda>c. instant P (case c of (u, fd) \<Rightarrow> newStop u fd 0)"
  have "mset (map ?g cs') = mset (map ?g cs)" using assms(1) by simp
  then have "distinct (map ?g cs') = distinct (map ?g cs)" by (rule mset_eq_imp_distinct_iff)
  then show ?thesis using assms(2) by (simp add: instants_created)
qed

lemma addStop_small:
  assumes "length (stops a) < 10" and "\<forall>s\<in>set (stops a). valid_date P s"
    and "valid_date P (newStop u fd (length (stops a)))"
  shows "addStop P u fd a
     = Inr (a\<lparr>stops := updatedStops P u fd (stops a),
               storage := Some (updatedStops P u fd (stops a))\<rparr>)"
proof -
  have "\<forall>s\<in>set (updatedStops P u fd (stops a)). valid_date P s"
    using assms(2,3) by (simp add: set_updatedStops)
  then show ?thesis
    unfolding addStop_def using assms(1) by (simp add: setStops_valid length_updatedStops)
qed

lemma addStops_invariant:
  assumes "\<forall>s\<in>set (created (length (stops a)) cs). valid_date P s"
    and "\<forall>s\<in>set (stops a). valid_date P s"
    and "sorted (map (instant P) (stops a))"
    and "length (stops a) + length cs \<le> 10"
  shows "\<exists>a'. addStops P cs a = Inr a'
     \<and> mset (stops a') = mset (stops a) + mset (created (length (stops a)) cs)
     \<and> sorted (map (instant P) (stops a'))"
  using assms
proof (induction cs arbitrary: a)
  case Nil
  then show ?case by simp
next
  case (Cons c cs)
  obtain u fd where c: "c = (u, fd)" by (cases c)
  let ?n = "length (stops a)"
  let ?xs = "updatedStops P u fd (stops a)"
  let ?a = "a\<lparr>stops := ?xs, storage := Some ?xs\<rparr>"
  have small: "?n < 10" using Cons.prems(4) by simp
  have new: "valid_date P (newStop u fd ?n)"
    using Cons.prems(1) c by simp
  have st: "addStop P u fd a = Inr ?a"
    using small Cons.prems(2) new by (rule addStop_small)
  have len: "length (stops ?a) = Suc ?n"
    by (simp add: length_updatedStops)
  have ms: "mset ?xs = add_mset (newStop u fd ?n) (mset (stops a))"
    by (simp add: updatedStops_def mset_sort_js)
  have val: "\<forall>s\<in>set (stops ?a). valid_date P s"
    using Cons.prems(2) new by (simp add: set_updatedStops)
  have "sorted (map (instant P) ?xs)"
    unfolding updatedStops_def
    by (rule sorted_sort_js) (use Cons.prems(2) new in auto)
  then have srt: "sorted (map (instant P) (stops ?a))" by simp
  have rest: "\<forall>s\<in>set (created (length (stops ?a)) cs). valid_date P s"
    using Cons.prems(1) c by (simp add: length_updatedStops)
  have bound: "length (stops ?a) + length cs \<le> 10"
    using Cons.prems(4) by (simp add: length_updatedStops)
  from Cons.IH [OF rest val srt bound] obtain a' where
    a': "addStops P cs ?a = Inr a'"
      "mset (stops a') = mset (stops ?a) + mset (created (length (stops ?a)) cs)"
      "sorted (map (instant P) (stops a'))"
    by blast
  have "addStops P (c # cs) a = Inr a'"
    by (simp add: c st and_then_def a'(1))
  moreover have "mset (stops a') = mset (stops a) + mset (created ?n (c # cs))"
    using a'(2) by (simp add: c ms length_updatedStops)
  ultimately show ?case using a'(3) by blast
qed

lemma addStops_sorted:
  assumes "length cs \<le> 10"
    and "\<forall>s\<in>set (created 0 cs). valid_date P s"
    and "distinct (map (instant P) (created 0 cs))"
  shows "\<exists>a'. addStops P cs initial = Inr a'
     \<and> stops a' = sort_key (instant P) (created 0 cs)
     \<and> sortedStops P (stops a') = sort_key (instant P) (created 0 cs)"
proof -
  have "\<exists>a'. addStops P cs initial = Inr a'
     \<and> mset (stops a') = mset (stops initial) + mset (created (length (stops initial)) cs)
     \<and> sorted (map (instant P) (stops a'))"
    by (rule addStops_invariant) (use assms(1,2) in \<open>simp_all add: initial_def\<close>)
  then obtain a' where a': "addStops P cs initial = Inr a'"
    and inv: "mset (stops a') = mset (created 0 cs)" "sorted (map (instant P) (stops a'))"
    by (auto simp: initial_def)
  have eq: "sort_key (instant P) (created 0 cs) = stops a'"
    using inv assms(3) by (intro sorted_unique) simp_all
  have "\<forall>s\<in>set (stops a'). valid_date P s"
    using inv(1) assms(2) by (metis mset_eq_setD)
  then have "sortedStops P (stops a') = stops a'"
    using inv(2) by (simp add: sortedStops_def sort_js_id)
  then show ?thesis using a' eq by simp
qed

section \<open>Reachable states\<close>

lemma reachable_invariant:
  "reachable P a \<Longrightarrow>
   sorted (map (instant P) (stops a)) \<and> (\<forall>s\<in>set (stops a). valid_date P s)
   \<and> length (stops a) \<le> 10"
proof (induction rule: reachable.induct)
  case start
  then show ?case by (simp add: initial_def)
next
  case (add a u fd a')
  let ?xs = "updatedStops P u fd (stops a)"
  from add.hyps(2) have v: "\<forall>s\<in>set ?xs. valid_date P s"
    and a': "a' = (if length ?xs > 10
                   then a\<lparr>alerts := alerts a + 1, stops := [], storage := Some []\<rparr>
                   else a\<lparr>stops := ?xs, storage := Some ?xs\<rparr>)"
    unfolding addStop_def by (auto dest: setStops_Inr)
  have "\<forall>y\<in>set (stops a @ [newStop u fd (length (stops a))]). valid_date P y"
    using v by (simp add: set_updatedStops)
  then have "sorted (map (instant P) ?xs)"
    unfolding updatedStops_def by (rule sorted_sort_js)
  then show ?case using v a' by simp
next
  case (toggle a i f a')
  let ?xs = "toggled i f (stops a)"
  from toggle.hyps(2) have a': "a' = (if length ?xs > 10
                   then a\<lparr>alerts := alerts a + 1, stops := [], storage := Some []\<rparr>
                   else a\<lparr>stops := ?xs, storage := Some ?xs\<rparr>)"
    unfolding toggleStatus_def by (auto dest: setStops_Inr)
  show ?case
    using toggle.IH by (simp add: a' length_toggled instant_toggled valid_toggled)
next
  case (delete a i a')
  let ?xs = "filter (\<lambda>s. id_stop s \<noteq> i) (stops a)"
  from delete.hyps(2) have a': "a' = (if length ?xs > 10
                   then a\<lparr>alerts := alerts a + 1, stops := [], storage := Some []\<rparr>
                   else a\<lparr>stops := ?xs, storage := Some ?xs\<rparr>)"
    unfolding deleteStop_def by (auto dest: setStops_Inr)
  have "length ?xs \<le> 10"
    using delete.IH by (meson le_trans length_filter_le)
  then show ?case
    using delete.IH by (simp add: a' sorted_filter)
qed

section \<open>Evaluation of the concrete inputs\<close>

lemmas parse_eval = parse_form_utc_def digits1_def digit_of_def days_in_month_def
  days_from_civil_def leap_year_def


lemma js_or_zero: "js_or c (Finite 0) = (if c = NaN then Finite 0 else c)"
  by (simp add: js_or_def truthy_def)

lemma instants_two:
  "map (instant parse_form_utc) (created 0 two_calls) = [1714557600000, 1714554000000]"
  by (simp add: two_calls_def fd_at_def newStop_def instant_def parse_eval)

lemma valid_two: "\<forall>s\<in>set (created 0 two_calls). valid_date parse_form_utc s"
  by (simp add: two_calls_def fd_at_def newStop_def valid_date_def parse_eval)

lemma stops_two_state: "stops two_state = sort_key (instant parse_form_utc) (created 0 two_calls)"
  using instants_two by (simp add: two_state_def two_calls_def)

lemma valid_two_state: "\<forall>s\<in>set (stops two_state). valid_date parse_form_utc s"
  using valid_two by (simp add: two_state_def two_calls_def)

lemma first_call:
  "addStop parse_form_utc ''a'' (fd_at ''10:00'' ''50000'') initial
     = Inr \<lparr>stops = [newStop ''a'' (fd_at ''10:00'' ''50000'') 0],
            storage = Some [newStop ''a'' (fd_at ''10:00'' ''50000'') 0], alerts = 0\<rparr>"
proof -
  have "valid_date parse_form_utc (newStop ''a'' (fd_at ''10:00'' ''50000'') (length (stops initial)))"
    using valid_two by (simp add: two_calls_def initial_def)
  then have "addStop parse_form_utc ''a'' (fd_at ''10:00'' ''50000'') initial
     = Inr (initial\<lparr>stops := updatedStops parse_form_utc ''a'' (fd_at ''10:00'' ''50000'') (stops initial),
          storage := Some (updatedStops parse_form_utc ''a'' (fd_at ''10:00'' ''50000'') (stops initial))\<rparr>)"
    by (intro addStop_small) (simp_all add: initial_def)
  then show ?thesis by (simp add: initial_def updatedStops_def sort_js_def)
qed

lemma second_call:
  "addStop parse_form_utc ''b'' (fd_at ''09:00'' '''')
     \<lparr>stops = [newStop ''a'' (fd_at ''10:00'' ''50000'') 0],
      storage = Some [newStop ''a'' (fd_at ''10:00'' ''50000'') 0], alerts = 0\<rparr>
     = Inr two_state"
proof -
  let ?s = "\<lparr>stops = [newStop ''a'' (fd_at ''10:00'' ''50000'') 0],
      storage = Some [newStop ''a'' (fd_at ''10:00'' ''50000'') 0], alerts = 0\<rparr>"
  have v: "\<forall>s\<in>set (created 0 two_calls). valid_date parse_form_utc s" by (rule valid_two)
  have u: "updatedStops parse_form_utc ''b'' (fd_at ''09:00'' '''') (stops ?s)
      = sort_key (instant parse_form_utc) (created 0 two_calls)"
    unfolding updatedStops_def using v
    by (subst sort_js_sort_key) (simp_all add: two_calls_def)
  have "addStop parse_form_utc ''b'' (fd_at ''09:00'' '''') ?s
     = Inr (?s\<lparr>stops := updatedStops parse_form_utc ''b'' (fd_at ''09:00'' '''') (stops ?s),
          storage := Some (updatedStops parse_form_utc ''b'' (fd_at ''09:00'' '''') (stops ?s))\<rparr>)"
    by (rule addStop_small) (use v in \<open>simp_all add: two_calls_def\<close>)
  then show ?thesis
    unfolding u using instants_two by (simp add: two_state_def two_calls_def)
qed

lemma addStops_two: "addStops parse_form_utc two_calls initial = Inr two_state"
  by (simp add: two_calls_def and_then_def first_call second_call)

lemma reachable_two: "reachable parse_form_utc two_state"
  using reachable.add [OF reachable.add [OF reachable.start first_call] second_call] .

text \<open>A submitted date that \<open>parseISO\<close> rejects makes the next render throw.\<close>

lemma addStop_invalid_date:
  "\<not> valid_date P (newStop u fd (length (stops a))) \<Longrightarrow> addStop P u fd a = Inl RangeError"
  unfolding addStop_def by (rule setStops_invalid) (simp add: set_updatedStops)

section \<open>The capacity reset\<close>



section \<open>Adding and the sorted view\<close>

text \<open>
  C2. For a sequence of at most ten \<open>addStop\<close> calls from the first render (so that no
  reset intervenes) whose dates are valid and pairwise distinct in time, every call
  returns and \<open>sortedStops\<close> is the list of the created stops sorted ascending by time.
  The order of the calls does not matter: any rearrangement of the same calls gives the
  same sorted view, up to the \<open>order\<close> numbers, which record the position of each call in
  the sequence.
\<close>

theorem add_then_sort:
  assumes "length cs \<le> 10"
    and "\<forall>s\<in>set (created 0 cs). valid_date P s"
    and "distinct (map (instant P) (created 0 cs))"
  shows "\<exists>a. addStops P cs initial = Inr a
    \<and> sortedStops P (stops a) = sort_key (instant P) (created 0 cs)
    \<and> (\<forall>cs'. mset cs' = mset cs \<longrightarrow>
          (\<exists>a'. addStops P cs' initial = Inr a'
             \<and> map forget_order (sortedStops P (stops a'))
                 = map forget_order (sortedStops P (stops a))))"
proof -
  from addStops_sorted [OF assms] obtain a where a: "addStops P cs initial = Inr a"
    and main: "sortedStops P (stops a) = sort_key (instant P) (created 0 cs)"
    by blast
  have "\<exists>a'. addStops P cs' initial = Inr a'
             \<and> map forget_order (sortedStops P (stops a'))
                 = map forget_order (sortedStops P (stops a))"
    if p: "mset cs' = mset cs" for cs'
  proof -
    let ?mk = "\<lambda>(u, fd). newStop u fd 0"
    have len: "length cs' \<le> 10" using p assms(1) by (metis size_mset)
    have val: "\<forall>s\<in>set (created 0 cs'). valid_date P s"
      using p assms(2) by (rule valid_created_perm)
    have dis: "distinct (map (instant P) (created 0 cs'))"
      using p assms(3) by (rule distinct_created_perm)
    from addStops_sorted [OF len val dis] obtain a' where a': "addStops P cs' initial = Inr a'"
      and main': "sortedStops P (stops a') = sort_key (instant P) (created 0 cs')"
      by blast
    have d0: "distinct (map (instant P) (map ?mk cs))"
      using assms(3) by (simp add: instants_created comp_def)
    have "sort_key (instant P) (map ?mk cs) = sort_key (instant P) (map ?mk cs')"
      using p d0 by (intro sorted_unique) simp_all
    then have "map forget_order (sortedStops P (stops a'))
        = map forget_order (sortedStops P (stops a))"
      by (simp add: main main' sort_key_forget map_forget_created)
    with a' show ?thesis by blast
  qed
  with a main show ?thesis by blast
qed

theorem add_then_sort_witness:
  "length two_calls \<le> 10
   \<and> map (valid_date parse_form_utc) (created 0 two_calls) = [True, True]
   \<and> distinct (map (instant parse_form_utc) (created 0 two_calls))
   \<and> mset [two_calls ! 1, two_calls ! 0] = mset two_calls
   \<and> addStops parse_form_utc two_calls initial = Inr two_state
   \<and> map id_stop (sortedStops parse_form_utc (stops two_state)) = [''b'', ''a'']
   \<and> (\<exists>a'. addStops parse_form_utc [two_calls ! 1, two_calls ! 0] initial = Inr a'
         \<and> map id_stop (sortedStops parse_form_utc (stops a')) = [''b'', ''a''])"
proof -
  have h1: "length two_calls \<le> 10" by (simp add: two_calls_def)
  have h2: "map (valid_date parse_form_utc) (created 0 two_calls) = [True, True]"
    using valid_two by (simp add: two_calls_def)
  have h3: "distinct (map (instant parse_form_utc) (created 0 two_calls))"
    by (simp add: instants_two)
  have h4: "mset [two_calls ! 1, two_calls ! 0] = mset two_calls"
    by (simp add: two_calls_def)
  have s: "map id_stop (sort_key (instant parse_form_utc) (created 0 two_calls)) = [''b'', ''a'']"
    using instants_two by (simp add: two_calls_def newStop_def)
  have f: "map id_stop (map forget_order xs) = map id_stop xs" for xs
    by (simp add: forget_order_def)
  from add_then_sort [OF h1 valid_two h3] obtain a where
    a: "addStops parse_form_utc two_calls initial = Inr a"
    and v: "sortedStops parse_form_utc (stops a)
        = sort_key (instant parse_form_utc) (created 0 two_calls)"
    and p: "\<forall>cs'. mset cs' = mset two_calls \<longrightarrow>
          (\<exists>a'. addStops parse_form_utc cs' initial = Inr a'
             \<and> map forget_order (sortedStops parse_form_utc (stops a'))
                 = map forget_order (sortedStops parse_form_utc (stops a)))"
    by blast
  from a have e: "a = two_state" by (simp add: addStops_two)
  from p h4 obtain a' where
    a': "addStops parse_form_utc [two_calls ! 1, two_calls ! 0] initial = Inr a'"
    and q: "map forget_order (sortedStops parse_form_utc (stops a'))
        = map forget_order (sortedStops parse_form_utc (stops a))"
    by blast
  have "map id_stop (map forget_order (sortedStops parse_form_utc (stops a'))) = [''b'', ''a'']"
    unfolding q v f by (rule s)
  then have r: "map id_stop (sortedStops parse_form_utc (stops a')) = [''b'', ''a'']"
    unfolding f .
  have x: "\<exists>a'. addStops parse_form_utc [two_calls ! 1, two_calls ! 0] initial = Inr a'
         \<and> map id_stop (sortedStops parse_form_utc (stops a')) = [''b'', ''a'']"
    by (rule exI [of _ a']) (intro conjI a' r)
  have y: "map id_stop (sortedStops parse_form_utc (stops two_state)) = [''b'', ''a'']"
    using v s unfolding e by simp
  show ?thesis by (intro conjI h1 h2 h3 h4 addStops_two y x)
qed

section \<open>Toggling the status\<close>

text \<open>
  C3. For a stop of the collection with the given identifier, \<open>toggleStatus\<close> without a
  forced status returns and turns \<open>visited\<close> into \<open>planned\<close> and every other status into
  \<open>visited\<close>; from \<open>planned\<close>, two such calls lead back to \<open>planned\<close>.
\<close>

theorem toggle_unforced:
  assumes "k < length (stops a)" and "id_stop (stops a ! k) = i" and "length (stops a) \<le> 10"
    and "\<forall>s\<in>set (stops a). valid_date P s"
  shows "\<exists>a1. toggleStatus P i None a = Inr a1
    \<and> status (stops a1 ! k) = (if status (stops a ! k) = Visited then Planned else Visited)
    \<and> (status (stops a ! k) = Planned \<longrightarrow>
          status (stops a1 ! k) = Visited
        \<and> (\<exists>a2. toggleStatus P i None a1 = Inr a2 \<and> status (stops a2 ! k) = Planned))"
proof -
  let ?xs = "toggled i None (stops a)"
  let ?a1 = "a\<lparr>stops := ?xs, storage := Some ?xs\<rparr>"
  let ?ys = "toggled i None ?xs"
  let ?a2 = "?a1\<lparr>stops := ?ys, storage := Some ?ys\<rparr>"
  have v1: "\<forall>s\<in>set ?xs. valid_date P s" using assms(4) by (simp add: valid_toggled)
  have v2: "\<forall>s\<in>set ?ys. valid_date P s" using v1 by (simp add: valid_toggled)
  have t1: "toggleStatus P i None a = Inr ?a1"
    unfolding toggleStatus_def setStops_valid [OF v1] using assms(3)
    by (simp add: length_toggled)
  have t2: "toggleStatus P i None ?a1 = Inr ?a2"
    unfolding toggleStatus_def using setStops_valid [OF v2, of ?a1] assms(3)
    by (simp add: length_toggled)
  have s1: "status (stops ?a1 ! k) = (if status (stops a ! k) = Visited then Planned else Visited)"
    using assms(1,2) by (simp add: toggled_def nextStatus_def)
  have s2: "status (stops a ! k) = Planned \<longrightarrow> status (stops ?a2 ! k) = Planned"
    using assms(1,2) by (simp add: toggled_def nextStatus_def)
  show ?thesis using t1 t2 s1 s2 by (intro exI [of _ ?a1]) auto
qed

theorem toggle_unforced_witness:
  "0 < length (stops two_state)
   \<and> id_stop (stops two_state ! 0) = ''b''
   \<and> length (stops two_state) \<le> 10
   \<and> list_all (valid_date parse_form_utc) (stops two_state)
   \<and> status (stops two_state ! 0) = Planned
   \<and> (\<exists>a1 a2. toggleStatus parse_form_utc ''b'' None two_state = Inr a1
         \<and> status (stops a1 ! 0) = Visited
         \<and> toggleStatus parse_form_utc ''b'' None a1 = Inr a2
         \<and> status (stops a2 ! 0) = Planned)"
proof -
  have h1: "0 < length (stops two_state)" by (simp add: two_state_def)
  have h2: "id_stop (stops two_state ! 0) = ''b''" by (simp add: two_state_def newStop_def)
  have h3: "length (stops two_state) \<le> 10" by (simp add: two_state_def)
  have h4: "status (stops two_state ! 0) = Planned" by (simp add: two_state_def newStop_def)
  have h5: "list_all (valid_date parse_form_utc) (stops two_state)"
    using valid_two_state by (simp add: list_all_iff)
  from toggle_unforced [OF h1 h2 h3 valid_two_state] obtain a1 where
    t1: "toggleStatus parse_form_utc ''b'' None two_state = Inr a1"
    and r: "status (stops two_state ! 0) = Planned \<longrightarrow>
          status (stops a1 ! 0) = Visited
        \<and> (\<exists>a2. toggleStatus parse_form_utc ''b'' None a1 = Inr a2
              \<and> status (stops a2 ! 0) = Planned)"
    by blast
  from r h4 obtain a2 where s1: "status (stops a1 ! 0) = Visited"
    and t2: "toggleStatus parse_form_utc ''b'' None a1 = Inr a2"
    and s2: "status (stops a2 ! 0) = Planned"
    by blast
  have x: "\<exists>a1 a2. toggleStatus parse_form_utc ''b'' None two_state = Inr a1
         \<and> status (stops a1 ! 0) = Visited
         \<and> toggleStatus parse_form_utc ''b'' None a1 = Inr a2
         \<and> status (stops a2 ! 0) = Planned"
    by (rule exI [of _ a1], rule exI [of _ a2]) (intro conjI t1 s1 t2 s2)
  show ?thesis by (intro conjI h1 h2 h3 h5 h4 x)
qed

section \<open>The cost of a new stop\<close>




section \<open>The total cost\<close>

text \<open>\<open>stop.cost || 0\<close> is the cost itself unless the cost is absent or \<open>NaN\<close>.\<close>

lemma cost_or_zero_present:
  "cost s \<noteq> Some NaN \<Longrightarrow> cost_or_zero s = (case cost s of None \<Rightarrow> 0 | Some c \<Rightarrow> c)"
  by (auto simp: cost_or_zero_def js_or_zero zero_jsnum_def split: option.splits)

lemma cost_or_zero_whole:
  assumes "whole_cost s"
  shows "cost_or_zero s = Finite (cost_value s)" and "cost_value s = of_int \<lfloor>cost_value s\<rfloor>"
proof -
  show "cost_or_zero s = Finite (cost_value s)"
    using assms
    by (auto simp: whole_cost_def cost_or_zero_def cost_value_def js_or_zero
        split: option.splits jsnum.splits)
  show "cost_value s = of_int \<lfloor>cost_value s\<rfloor>"
    using assms
    by (auto simp: whole_cost_def cost_value_def split: option.splits jsnum.splits)
qed

text \<open>Beyond \<open>2 ^ 53\<close> an addition need not be exact.\<close>

lemma addition_rounds: "Finite (2 ^ 53) + Finite 1 = Finite (2 ^ 53)"
  using round64_tie by simp

text \<open>
  While the running total and the costs are integers whose magnitudes add up to at most
  \<open>2 ^ 53\<close>, every addition is exact.
\<close>

lemma running_total_exact:
  assumes "\<forall>s\<in>set xs. whole_cost s"
    and "\<bar>of_int k\<bar> + (\<Sum>s\<leftarrow>xs. \<bar>cost_value s\<bar>) \<le> 2 ^ 53"
  shows "foldl (\<lambda>acc stop. acc + cost_or_zero stop) (Finite (of_int k)) xs
     = Finite (of_int k + (\<Sum>s\<leftarrow>xs. cost_value s))"
  using assms
proof (induction xs arbitrary: k)
  case Nil
  then show ?case by simp
next
  case (Cons s xs)
  define j where "j = \<lfloor>cost_value s\<rfloor>"
  have w: "whole_cost s" using Cons.prems(1) by simp
  have cv: "cost_value s = of_int j" unfolding j_def using w by (rule cost_or_zero_whole(2))
  have cz: "cost_or_zero s = Finite (of_int j)"
    using cost_or_zero_whole(1) [OF w] cv by simp
  have rest: "0 \<le> (\<Sum>s\<leftarrow>xs. \<bar>cost_value s\<bar>)" by (rule sum_list_nonneg) auto
  have b: "\<bar>of_int k :: rat\<bar> + \<bar>of_int j\<bar> + (\<Sum>s\<leftarrow>xs. \<bar>cost_value s\<bar>) \<le> 2 ^ 53"
    using Cons.prems(2) by (simp add: cv)
  have "\<bar>of_int (k + j) :: rat\<bar> \<le> \<bar>of_int k\<bar> + \<bar>of_int j\<bar>" by simp
  with b rest have b': "\<bar>of_int (k + j) :: rat\<bar> + (\<Sum>s\<leftarrow>xs. \<bar>cost_value s\<bar>) \<le> 2 ^ 53"
    by linarith
  with rest have "\<bar>of_int (k + j) :: rat\<bar> \<le> 2 ^ 53" by linarith
  then have "(of_int \<bar>k + j\<bar> :: rat) \<le> of_int (2 ^ 53)" by simp
  then have small: "\<bar>k + j\<bar> \<le> 2 ^ 53" by (simp only: of_int_le_iff)
  have step: "Finite (of_int k) + cost_or_zero s = Finite (of_int (k + j))"
    unfolding cz using round64_int [OF small] by simp
  have "foldl (\<lambda>acc stop. acc + cost_or_zero stop) (Finite (of_int k)) (s # xs)
      = foldl (\<lambda>acc stop. acc + cost_or_zero stop) (Finite (of_int (k + j))) xs"
    by (simp add: step)
  also have "\<dots> = Finite (of_int (k + j) + (\<Sum>s\<leftarrow>xs. cost_value s))"
    using Cons.prems(1) b' by (intro Cons.IH) simp_all
  finally show ?case by (simp add: cv)
qed

text \<open>
  C5. \<open>totalCost\<close> is the sum of the costs of all stops, whatever their status, an absent
  cost counting as \<open>0\<close>. The code adds from left to right in binary64, and for a
  collection without a \<open>NaN\<close> cost (no created stop has one) the total is that running
  sum. It is the exact sum of the costs whenever the costs are whole numbers whose
  magnitudes add up to at most \<open>2 ^ 53\<close>, so that no addition rounds.
  Changing statuses leaves the total as it is, and for the costs
  \<open>[1000, 0, undefined, 2500]\<close> the total is \<open>3500\<close>.
\<close>

theorem totalCost_sum:
  assumes "\<forall>s\<in>set xs. cost s \<noteq> Some NaN"
  shows "totalCost xs = foldl (+) 0 (map (\<lambda>s. case cost s of None \<Rightarrow> 0 | Some c \<Rightarrow> c) xs)
    \<and> ((\<forall>s\<in>set xs. whole_cost s) \<and> (\<Sum>s\<leftarrow>xs. \<bar>cost_value s\<bar>) \<le> 2 ^ 53
         \<longrightarrow> totalCost xs = Finite (\<Sum>s\<leftarrow>xs. cost_value s))
    \<and> totalCost (map (\<lambda>s. s\<lparr>status := g s\<rparr>) xs) = totalCost xs
    \<and> (map cost xs = [Some (Finite 1000), Some (Finite 0), None, Some (Finite 2500)]
         \<longrightarrow> totalCost xs = Finite 3500)"
proof (intro conjI impI)
  have "foldl (\<lambda>acc stop. acc + cost_or_zero stop) z xs
      = foldl (+) z (map (\<lambda>s. case cost s of None \<Rightarrow> 0 | Some c \<Rightarrow> c) xs)" for z
    using assms by (induction xs arbitrary: z) (simp_all add: cost_or_zero_present)
  then show "totalCost xs
      = foldl (+) 0 (map (\<lambda>s. case cost s of None \<Rightarrow> 0 | Some c \<Rightarrow> c) xs)"
    by (simp add: totalCost_def zero_jsnum_def)
next
  assume h: "(\<forall>s\<in>set xs. whole_cost s) \<and> (\<Sum>s\<leftarrow>xs. \<bar>cost_value s\<bar>) \<le> 2 ^ 53"
  then have "foldl (\<lambda>acc stop. acc + cost_or_zero stop) (Finite (of_int 0)) xs
     = Finite (of_int 0 + (\<Sum>s\<leftarrow>xs. cost_value s))"
    by (intro running_total_exact) simp_all
  then show "totalCost xs = Finite (\<Sum>s\<leftarrow>xs. cost_value s)"
    by (simp add: totalCost_def)
next
  have "cost_or_zero (s\<lparr>status := g s\<rparr>) = cost_or_zero s" for s
    by (simp add: cost_or_zero_def)
  then have "foldl (\<lambda>acc stop. acc + cost_or_zero stop) z (map (\<lambda>s. s\<lparr>status := g s\<rparr>) xs)
      = foldl (\<lambda>acc stop. acc + cost_or_zero stop) z xs" for z
    by (induction xs arbitrary: z) simp_all
  then show "totalCost (map (\<lambda>s. s\<lparr>status := g s\<rparr>) xs) = totalCost xs"
    by (simp add: totalCost_def)
next
  assume m: "map cost xs = [Some (Finite 1000), Some (Finite 0), None, Some (Finite 2500)]"
  then obtain a b c d where xs: "xs = [a, b, c, d]"
    and cs: "cost a = Some (Finite 1000)" "cost b = Some (Finite 0)" "cost c = None"
      "cost d = Some (Finite 2500)"
    by (auto simp: map_eq_Cons_conv)
  show "totalCost xs = Finite 3500"
    by (simp add: totalCost_def xs cost_or_zero_def cs js_or_zero round64_numeral)
qed

theorem totalCost_sum_witness:
  "map cost (with_costs [Some (Finite 1000), Some (Finite 0), None, Some (Finite 2500)])
       = [Some (Finite 1000), Some (Finite 0), None, Some (Finite 2500)]
   \<and> list_all whole_cost (with_costs [Some (Finite 1000), Some (Finite 0), None, Some (Finite 2500)])
   \<and> (\<Sum>s\<leftarrow>with_costs [Some (Finite 1000), Some (Finite 0), None, Some (Finite 2500)].
         \<bar>cost_value s\<bar>) = 3500
   \<and> totalCost (with_costs [Some (Finite 1000), Some (Finite 0), None, Some (Finite 2500)])
       = Finite 3500"
proof -
  let ?xs = "with_costs [Some (Finite 1000), Some (Finite 0), None, Some (Finite 2500)]"
  have h: "\<forall>s\<in>set ?xs. cost s \<noteq> Some NaN" by (simp add: with_costs_def)
  have m: "map cost ?xs = [Some (Finite 1000), Some (Finite 0), None, Some (Finite 2500)]"
    by (simp add: with_costs_def)
  have w: "\<forall>s\<in>set ?xs. whole_cost s" by (simp add: with_costs_def whole_cost_def)
  have s: "(\<Sum>s\<leftarrow>?xs. \<bar>cost_value s\<bar>) = 3500" by (simp add: with_costs_def cost_value_def)
  have v: "(\<Sum>s\<leftarrow>?xs. cost_value s) = 3500" by (simp add: with_costs_def cost_value_def)
  have b: "(\<Sum>s\<leftarrow>?xs. \<bar>cost_value s\<bar>) \<le> 2 ^ 53" unfolding s by simp
  from totalCost_sum [OF h, of status] w b have "totalCost ?xs = Finite (\<Sum>s\<leftarrow>?xs. cost_value s)"
    by blast
  then have t: "totalCost ?xs = Finite 3500" unfolding v .
  have l: "list_all whole_cost ?xs" using w by (simp add: list_all_iff)
  show ?thesis by (intro conjI m l s t)
qed

section \<open>The next stop\<close>

text \<open>
  C6. \<open>nextStop\<close> is the first entry of \<open>sortedStops\<close> whose status is \<open>planned\<close>: it is
  planned and no entry before it is; it is absent exactly when no stop of the collection
  is planned; and with the statuses \<open>[visited, skipped, planned, planned]\<close> in
  chronological order it is the third entry.
\<close>

theorem nextStop_first_planned:
  "(nextStop P xs = None \<longleftrightarrow> (\<forall>s\<in>set xs. status s \<noteq> Planned))
   \<and> (\<forall>s. nextStop P xs = Some s \<longleftrightarrow>
         (\<exists>k<length (sortedStops P xs). s = sortedStops P xs ! k \<and> status s = Planned
            \<and> (\<forall>j<k. status (sortedStops P xs ! j) \<noteq> Planned)))
   \<and> (map status (sortedStops P xs) = [Visited, Skipped, Planned, Planned]
         \<longrightarrow> nextStop P xs = Some (sortedStops P xs ! 2))"
proof (intro conjI allI)
  show "nextStop P xs = None \<longleftrightarrow> (\<forall>s\<in>set xs. status s \<noteq> Planned)"
    by (auto simp: nextStop_def sortedStops_def find_None_iff set_sort_js)
  show "nextStop P xs = Some s \<longleftrightarrow>
         (\<exists>k<length (sortedStops P xs). s = sortedStops P xs ! k \<and> status s = Planned
            \<and> (\<forall>j<k. status (sortedStops P xs ! j) \<noteq> Planned))" for s
    unfolding nextStop_def find_Some_iff by auto
  show "map status (sortedStops P xs) = [Visited, Skipped, Planned, Planned]
         \<longrightarrow> nextStop P xs = Some (sortedStops P xs ! 2)"
  proof
    assume m: "map status (sortedStops P xs) = [Visited, Skipped, Planned, Planned]"
    then obtain a b c d where ys: "sortedStops P xs = [a, b, c, d]"
      and st: "status a = Visited" "status b = Skipped" "status c = Planned"
      by (auto simp: map_eq_Cons_conv)
    show "nextStop P xs = Some (sortedStops P xs ! 2)"
      by (simp add: nextStop_def ys st)
  qed
qed

theorem nextStop_first_planned_witness:
  "map status (sortedStops parse_form_utc four_statuses) = [Visited, Skipped, Planned, Planned]
   \<and> map id_stop (sortedStops parse_form_utc four_statuses) = [''p'', ''q'', ''r'', ''s'']
   \<and> map_option id_stop (nextStop parse_form_utc four_statuses) = Some ''r''
   \<and> \<not> (\<forall>s\<in>set four_statuses. status s \<noteq> Planned)"
proof -
  have v: "\<forall>y\<in>set four_statuses. valid_date parse_form_utc y"
    by (simp add: four_statuses_def fd_at_def newStop_def valid_date_def parse_eval)
  have i: "map (instant parse_form_utc) four_statuses
      = [1714550400000, 1714554000000, 1714557600000, 1714561200000]"
    by (simp add: four_statuses_def fd_at_def newStop_def instant_def parse_eval)
  have s: "sortedStops parse_form_utc four_statuses = four_statuses"
    unfolding sortedStops_def using v by (rule sort_js_id) (simp add: i)
  have m: "map status (sortedStops parse_form_utc four_statuses)
      = [Visited, Skipped, Planned, Planned]"
    by (simp add: s) (simp add: four_statuses_def)
  have d: "map id_stop (sortedStops parse_form_utc four_statuses) = [''p'', ''q'', ''r'', ''s'']"
    by (simp add: s) (simp add: four_statuses_def newStop_def)
  have n: "nextStop parse_form_utc four_statuses
      = Some (sortedStops parse_form_utc four_statuses ! 2)"
    using nextStop_first_planned [of parse_form_utc four_statuses] m by blast
  have r: "id_stop (sortedStops parse_form_utc four_statuses ! 2) = ''r''"
    by (simp add: s) (simp add: four_statuses_def newStop_def)
  have e: "\<not> (\<forall>s\<in>set four_statuses. status s \<noteq> Planned)"
    using nextStop_first_planned [of parse_form_utc four_statuses] n by simp
  show ?thesis using m d n r e by simp
qed

section \<open>Unknown identifiers\<close>

text \<open>
  C7. For an identifier that no stop of the collection carries, \<open>toggleStatus\<close> and
  \<open>deleteStop\<close> return without an error and leave the collection as it is; when the
  storage already holds the collection, the whole state is unchanged.
\<close>

theorem unknown_id_noop:
  assumes "i \<notin> id_stop ` set (stops a)" and "length (stops a) \<le> 10"
    and "\<forall>s\<in>set (stops a). valid_date P s"
  shows "toggleStatus P i f a = Inr (a\<lparr>storage := Some (stops a)\<rparr>)
     \<and> deleteStop P i a = Inr (a\<lparr>storage := Some (stops a)\<rparr>)
     \<and> (storage a = Some (stops a) \<longrightarrow> toggleStatus P i f a = Inr a \<and> deleteStop P i a = Inr a)"
  using assms
  by (simp add: toggleStatus_def deleteStop_def toggled_absent filter_absent setStops_valid)

theorem unknown_id_noop_witness:
  "''zzz'' \<notin> id_stop ` set (stops two_state)
   \<and> length (stops two_state) \<le> 10
   \<and> list_all (valid_date parse_form_utc) (stops two_state)
   \<and> storage two_state = Some (stops two_state)
   \<and> toggleStatus parse_form_utc ''zzz'' None two_state = Inr two_state
   \<and> deleteStop parse_form_utc ''zzz'' two_state = Inr two_state"
proof -
  have h1: "''zzz'' \<notin> id_stop ` set (stops two_state)" by (simp add: two_state_def newStop_def)
  have h2: "length (stops two_state) \<le> 10" by (simp add: two_state_def)
  have h3: "list_all (valid_date parse_form_utc) (stops two_state)"
    using valid_two_state by (simp add: list_all_iff)
  have h4: "storage two_state = Some (stops two_state)" by (simp add: two_state_def)
  from unknown_id_noop [OF h1 h2 valid_two_state, of None] h4
  have t: "toggleStatus parse_form_utc ''zzz'' None two_state = Inr two_state"
    and d: "deleteStop parse_form_utc ''zzz'' two_state = Inr two_state"
    by blast+
  show ?thesis by (intro conjI h1 h2 h3 h4 t d)
qed

section \<open>Forcing a status\<close>

text \<open>
  C8. Calling \<open>toggleStatus\<close> with the forced status \<open>visited\<close> twice in a row gives exactly
  what one call gives, for every state and every identifier.
\<close>

theorem forced_toggle_idempotent:
  "and_then (toggleStatus P i (Some Visited) a) (toggleStatus P i (Some Visited))
     = toggleStatus P i (Some Visited) a"
proof (cases "\<forall>s\<in>set (stops a). valid_date P s")
  case False
  then have "\<not> (\<forall>s\<in>set (toggled i (Some Visited) (stops a)). valid_date P s)"
    by (simp add: valid_toggled)
  then have "toggleStatus P i (Some Visited) a = Inl RangeError"
    unfolding toggleStatus_def by (rule setStops_invalid)
  then show ?thesis by (simp add: and_then_def)
next
  case True
  then have v: "\<forall>s\<in>set (toggled i (Some Visited) (stops a)). valid_date P s"
    by (simp add: valid_toggled)
  show ?thesis
  proof (cases "length (stops a) > 10")
    case True
    let ?r = "a\<lparr>alerts := alerts a + 1, stops := [], storage := Some []\<rparr>"
    have t: "toggleStatus P i (Some Visited) a = Inr ?r"
      unfolding toggleStatus_def setStops_valid [OF v] using True by (simp add: length_toggled)
    have e: "\<forall>s\<in>set (toggled i (Some Visited) (stops ?r)). valid_date P s"
      by (simp add: toggled_def)
    have "toggleStatus P i (Some Visited) ?r = Inr ?r"
      unfolding toggleStatus_def setStops_valid [OF e] by (simp add: toggled_def)
    then show ?thesis unfolding t by (simp add: and_then_def)
  next
    case False
    then show ?thesis
      using v
      by (simp add: toggleStatus_def setStops_valid and_then_def length_toggled
          toggled_forced_idem)
  qed
qed

theorem forced_toggle_idempotent_witness:
  "(\<exists>a1. toggleStatus parse_form_utc ''b'' (Some Visited) two_state = Inr a1
      \<and> map status (stops a1) = [Visited, Planned]
      \<and> toggleStatus parse_form_utc ''b'' (Some Visited) a1 = Inr a1)"
proof -
  let ?xs = "toggled ''b'' (Some Visited) (stops two_state)"
  let ?a1 = "two_state\<lparr>stops := ?xs, storage := Some ?xs\<rparr>"
  have v: "\<forall>s\<in>set ?xs. valid_date parse_form_utc s"
    using valid_two_state by (simp add: valid_toggled)
  have l: "\<not> length ?xs > 10" by (simp add: length_toggled two_state_def)
  have t: "toggleStatus parse_form_utc ''b'' (Some Visited) two_state = Inr ?a1"
    unfolding toggleStatus_def setStops_valid [OF v] using l by simp
  have m: "map status (stops ?a1) = [Visited, Planned]"
    by (simp add: two_state_def toggled_def nextStatus_def newStop_def)
  from forced_toggle_idempotent [of parse_form_utc "''b''" two_state]
  have "toggleStatus parse_form_utc ''b'' (Some Visited) ?a1 = Inr ?a1"
    unfolding t by (simp add: and_then_def)
  with t m show ?thesis by (intro exI [of _ ?a1] conjI)
qed

section \<open>Deleting a stop\<close>

text \<open>
  C9. In a collection with pairwise distinct identifiers, \<open>deleteStop\<close> with the identifier
  of a stop \<open>x\<close> of the collection returns and removes \<open>x\<close> and nothing else: the remaining
  stops are the same records in the same sequence, so every field of every other stop, its
  \<open>order\<close> number included, is what it was.
\<close>

theorem deleteStop_frame:
  assumes "distinct (map id_stop (stops a))" and "x \<in> set (stops a)"
    and "length (stops a) \<le> 10" and "\<forall>s\<in>set (stops a). valid_date P s"
  shows "\<exists>a'. deleteStop P (id_stop x) a = Inr a'
     \<and> stops a' = remove1 x (stops a)
     \<and> x \<notin> set (stops a')
     \<and> (\<forall>y \<in> set (stops a). y \<noteq> x \<longrightarrow> y \<in> set (stops a'))
     \<and> map order (stops a') = map order (remove1 x (stops a))"
proof -
  let ?xs = "filter (\<lambda>s. id_stop s \<noteq> id_stop x) (stops a)"
  let ?a = "a\<lparr>stops := ?xs, storage := Some ?xs\<rparr>"
  have d: "distinct (stops a)" using assms(1) by (simp add: distinct_map)
  have l: "length ?xs \<le> 10"
    using assms(3) by (meson le_trans length_filter_le)
  have v: "\<forall>s\<in>set ?xs. valid_date P s" using assms(4) by simp
  have r: "deleteStop P (id_stop x) a = Inr ?a"
    unfolding deleteStop_def setStops_valid [OF v] using l by simp
  have eq: "stops ?a = remove1 x (stops a)"
    using assms(1,2) by (simp add: filter_remove1)
  have "stops ?a = remove1 x (stops a)
     \<and> x \<notin> set (stops ?a)
     \<and> (\<forall>y \<in> set (stops a). y \<noteq> x \<longrightarrow> y \<in> set (stops ?a))
     \<and> map order (stops ?a) = map order (remove1 x (stops a))"
    unfolding eq using d by auto
  with r show ?thesis by blast
qed

theorem deleteStop_frame_witness:
  "distinct (map id_stop (stops two_state))
   \<and> newStop ''b'' (fd_at ''09:00'' '''') 1 \<in> set (stops two_state)
   \<and> length (stops two_state) \<le> 10
   \<and> list_all (valid_date parse_form_utc) (stops two_state)
   \<and> (\<exists>a'. deleteStop parse_form_utc ''b'' two_state = Inr a'
         \<and> stops a' = [newStop ''a'' (fd_at ''10:00'' ''50000'') 0])"
proof -
  let ?x = "newStop ''b'' (fd_at ''09:00'' '''') 1"
  have h1: "distinct (map id_stop (stops two_state))" by (simp add: two_state_def newStop_def)
  have h2: "?x \<in> set (stops two_state)" by (simp add: two_state_def)
  have h3: "length (stops two_state) \<le> 10" by (simp add: two_state_def)
  have h4: "list_all (valid_date parse_form_utc) (stops two_state)"
    using valid_two_state by (simp add: list_all_iff)
  have i: "id_stop ?x = ''b''" by (simp add: newStop_def)
  have r: "remove1 ?x (stops two_state) = [newStop ''a'' (fd_at ''10:00'' ''50000'') 0]"
    by (simp add: two_state_def)
  from deleteStop_frame [OF h1 h2 h3 valid_two_state] obtain a' where
    "deleteStop parse_form_utc (id_stop ?x) two_state = Inr a'"
    "stops a' = remove1 ?x (stops two_state)"
    by blast
  then have "deleteStop parse_form_utc ''b'' two_state = Inr a'"
    "stops a' = [newStop ''a'' (fd_at ''10:00'' ''50000'') 0]"
    by (simp_all only: i r)
  then have x: "\<exists>a'. deleteStop parse_form_utc ''b'' two_state = Inr a'
         \<and> stops a' = [newStop ''a'' (fd_at ''10:00'' ''50000'') 0]"
    by (intro exI [of _ a'] conjI)
  show ?thesis by (intro conjI h1 h2 h3 h4 x)
qed

section \<open>The stored order\<close>

text \<open>
  C10. In every reachable state the stored collection is sorted ascending by time:
  \<open>addStop\<close> sorts the array it stores, \<open>toggleStatus\<close> keeps every stop at its position
  with its date, and \<open>deleteStop\<close> keeps the remaining stops in their sequence. The
  \<open>order\<close> number of a new stop is the number of stops in the collection before the
  insertion, wherever the sort places the stop.
\<close>

theorem stored_order_invariant:
  assumes "reachable P a"
  shows "sorted (map (instant P) (stops a))
    \<and> (\<exists>a'. toggleStatus P i f a = Inr a' \<and> map dateTime (stops a') = map dateTime (stops a))
    \<and> (\<exists>a'. deleteStop P i a = Inr a' \<and> subseq (stops a') (stops a))
    \<and> (length (stops a) < 10 \<and> valid_date P (newStop u fd (length (stops a))) \<longrightarrow>
          (\<exists>a'. addStop P u fd a = Inr a'
             \<and> (\<exists>s\<in>set (stops a'). id_stop s = u \<and> order s = length (stops a))))"
proof -
  from assms have srt: "sorted (map (instant P) (stops a))"
    and val: "\<forall>s\<in>set (stops a). valid_date P s" and len: "length (stops a) \<le> 10"
    using reachable_invariant by blast+
  let ?ts = "toggled i f (stops a)"
  have "\<forall>s\<in>set ?ts. valid_date P s" using val by (simp add: valid_toggled)
  then have "toggleStatus P i f a = Inr (a\<lparr>stops := ?ts, storage := Some ?ts\<rparr>)"
    unfolding toggleStatus_def using len by (simp add: setStops_valid length_toggled)
  then have t: "\<exists>a'. toggleStatus P i f a = Inr a'
      \<and> map dateTime (stops a') = map dateTime (stops a)"
    by (simp add: dateTime_toggled)
  let ?ds = "filter (\<lambda>s. id_stop s \<noteq> i) (stops a)"
  have "length ?ds \<le> 10"
    using len by (meson le_trans length_filter_le)
  moreover have "\<forall>s\<in>set ?ds. valid_date P s" using val by simp
  ultimately have "deleteStop P i a = Inr (a\<lparr>stops := ?ds, storage := Some ?ds\<rparr>)"
    unfolding deleteStop_def by (simp add: setStops_valid)
  then have d: "\<exists>a'. deleteStop P i a = Inr a' \<and> subseq (stops a') (stops a)"
    by simp
  have n: "length (stops a) < 10 \<and> valid_date P (newStop u fd (length (stops a))) \<longrightarrow>
          (\<exists>a'. addStop P u fd a = Inr a'
             \<and> (\<exists>s\<in>set (stops a'). id_stop s = u \<and> order s = length (stops a)))"
  proof
    assume h: "length (stops a) < 10 \<and> valid_date P (newStop u fd (length (stops a)))"
    let ?xs = "updatedStops P u fd (stops a)"
    have r: "addStop P u fd a = Inr (a\<lparr>stops := ?xs, storage := Some ?xs\<rparr>)"
      using h val by (intro addStop_small) simp_all
    have "newStop u fd (length (stops a)) \<in> set ?xs" by (simp add: set_updatedStops)
    then have "\<exists>s\<in>set ?xs. id_stop s = u \<and> order s = length (stops a)"
      by (rule bexI [rotated]) (simp add: newStop_def)
    with r show "\<exists>a'. addStop P u fd a = Inr a'
             \<and> (\<exists>s\<in>set (stops a'). id_stop s = u \<and> order s = length (stops a))"
      by simp
  qed
  show ?thesis by (intro conjI srt t d n)
qed

theorem stored_order_invariant_witness:
  "reachable parse_form_utc two_state
   \<and> length (stops two_state) < 10
   \<and> valid_date parse_form_utc (newStop ''c'' (fd_at ''08:00'' '''') (length (stops two_state)))
   \<and> sorted (map (instant parse_form_utc) (stops two_state))
   \<and> (\<exists>a'. addStop parse_form_utc ''c'' (fd_at ''08:00'' '''') two_state = Inr a'
         \<and> (\<exists>s\<in>set (stops a'). id_stop s = ''c'' \<and> order s = 2))"
proof -
  have l: "length (stops two_state) = 2" by (simp add: two_state_def)
  have h1: "length (stops two_state) < 10" by (simp add: l)
  have h2: "valid_date parse_form_utc
      (newStop ''c'' (fd_at ''08:00'' '''') (length (stops two_state)))"
    by (simp add: fd_at_def newStop_def valid_date_def parse_eval)
  note inv = stored_order_invariant [OF reachable_two,
      of "''c''" None "''c''" "fd_at ''08:00'' ''''"]
  from inv have s: "sorted (map (instant parse_form_utc) (stops two_state))" by blast
  from inv h1 h2 have "\<exists>a'. addStop parse_form_utc ''c'' (fd_at ''08:00'' '''') two_state = Inr a'
         \<and> (\<exists>s\<in>set (stops a'). id_stop s = ''c'' \<and> order s = length (stops two_state))"
    by blast
  then have x: "\<exists>a'. addStop parse_form_utc ''c'' (fd_at ''08:00'' '''') two_state = Inr a'
         \<and> (\<exists>s\<in>set (stops a'). id_stop s = ''c'' \<and> order s = 2)"
    unfolding l .
  show ?thesis by (intro conjI reachable_two h1 h2 s x)
qed

text \<open>
  The \<open>order\<close> number is not the chronological position. After adding a stop for 10:00
  and then a stop for 09:00, the later call's stop stands first in the stored collection
  and is the earliest of the stops present when it was added, yet its \<open>order\<close> is \<open>1\<close>;
  the stop that stands second has \<open>order\<close> \<open>0\<close>.
\<close>

theorem order_not_chronological_counterexample:
  "addStops parse_form_utc two_calls initial = Inr two_state
   \<and> map id_stop (stops two_state) = [''b'', ''a'']
   \<and> map dateTime (stops two_state) = [''2024-05-01T09:00'', ''2024-05-01T10:00'']
   \<and> map order (stops two_state) = [1, 0]"
  by (simp add: addStops_two) (simp add: two_state_def newStop_def fd_at_def)

end
